theory Spec2Isabelle
  imports Main "HOL-Library.Word"
begin

section \<open>Data model of data.go\<close>

text \<open>
  Bytes are 8-bit words.  The three bytes the decoder tests for are given names:
  \<open>'.'\<close> is 46, \<open>'\r'\<close> is 13 and \<open>'\n'\<close> is 10.
\<close>

type_synonym byte = "8 word"

abbreviation DOT :: byte where "DOT \<equiv> 46"
abbreviation CR :: byte where "CR \<equiv> 13"
abbreviation LF :: byte where "LF \<equiv> 10"

text \<open>\<^verbatim>\<open>type EnhancedCode [3]int\<close> and \<^verbatim>\<open>type SMTPError struct\<close>.\<close>

type_synonym EnhancedCode = "int \<times> int \<times> int"

record SMTPError =
  Code :: int
  EnhancedCode :: EnhancedCode
  Message :: string

definition NoEnhancedCode :: EnhancedCode where
  "NoEnhancedCode = (-1, -1, -1)"

definition EnhancedCodeNotSet :: EnhancedCode where
  "EnhancedCodeNotSet = (0, 0, 0)"

text \<open>
  Go's integer division truncates towards zero, HOL's \<open>div\<close> rounds down; the
  quotient of the source is written out.
\<close>

definition go_quo :: "int \<Rightarrow> int \<Rightarrow> int" where
  "go_quo a b = (if (a < 0) = (b < 0) then \<bar>a\<bar> div \<bar>b\<bar> else - (\<bar>a\<bar> div \<bar>b\<bar>))"

definition Error :: "SMTPError \<Rightarrow> string" where
  "Error err = Message err"

definition Temporary :: "SMTPError \<Rightarrow> bool" where
  "Temporary err = (go_quo (Code err) 100 = 4)"

definition ErrDataTooLarge :: SMTPError where
  "ErrDataTooLarge =
     \<lparr>Code = 552, EnhancedCode = (5, 3, 4), Message = ''Maximum message size exceeded''\<rparr>"

definition ErrDataTimeout :: SMTPError where
  "ErrDataTimeout =
     \<lparr>Code = 451, EnhancedCode = (4, 4, 2), Message = ''Timeout waiting for data from client''\<rparr>"

text \<open>
  The error values that reach \<^verbatim>\<open>Read\<close>: the two sentinels of package \<^verbatim>\<open>io\<close>, an error that
  implements \<^verbatim>\<open>net.Error\<close> (with what its \<^verbatim>\<open>Timeout()\<close> answers and its text), any other
  error, and an \<^verbatim>\<open>*SMTPError\<close>.
\<close>

datatype go_error =
    io_EOF
  | io_ErrUnexpectedEOF
  | net_Error bool string
  | other_error string
  | SMTPErr SMTPError

text \<open>\<^verbatim>\<open>e, ok := err.(net.Error); ok && e.Timeout()\<close>\<close>

fun is_net_timeout :: "go_error \<Rightarrow> bool" where
  "is_net_timeout (net_Error t _) = t"
| "is_net_timeout _ = False"

subsection \<open>The connection\<close>

text \<open>
  \<^verbatim>\<open>Conn\<close> and \<^verbatim>\<open>Server\<close> are declared outside data.go; the decoder uses
  \<^verbatim>\<open>c.server.MaxMessageBytes\<close>, \<^verbatim>\<open>c.server.ReadTimeout\<close>, \<^verbatim>\<open>c.server.ErrorLog\<close>,
  \<^verbatim>\<open>c.conn.SetReadDeadline\<close> and \<^verbatim>\<open>c.text.R.ReadByte\<close>.  The byte source is the list of
  the outcomes of the coming \<^verbatim>\<open>ReadByte\<close> calls (a source that has run dry answers
  \<^verbatim>\<open>io.EOF\<close>), \<open>deadline_results\<close> the outcomes of the coming \<^verbatim>\<open>SetReadDeadline\<close> calls
  (once the list is used up the call succeeds), and \<open>trace\<close> records, in order, every
  call the decoder makes on its collaborators.
\<close>

record Server =
  MaxMessageBytes :: int
  ReadTimeout :: int

datatype read_outcome = RByte byte | RErr go_error

datatype event = EvSetReadDeadline | EvReadByte | EvErrorLog go_error

record Conn =
  server :: Server
  text_R :: "read_outcome list"
  deadline_results :: "go_error option list"
  trace :: "event list"

definition SetReadDeadline :: "Conn \<Rightarrow> go_error option \<times> Conn" where
  "SetReadDeadline c =
     (case deadline_results c of
        [] \<Rightarrow> (None, c\<lparr>trace := trace c @ [EvSetReadDeadline]\<rparr>)
      | res # rest \<Rightarrow>
          (res, c\<lparr>deadline_results := rest, trace := trace c @ [EvSetReadDeadline]\<rparr>))"

definition ReadByte :: "Conn \<Rightarrow> (go_error + byte) \<times> Conn" where
  "ReadByte c =
     (case text_R c of
        [] \<Rightarrow> (Inl io_EOF, c\<lparr>trace := trace c @ [EvReadByte]\<rparr>)
      | RByte b # rest \<Rightarrow> (Inr b, c\<lparr>text_R := rest, trace := trace c @ [EvReadByte]\<rparr>)
      | RErr e # rest \<Rightarrow> (Inl e, c\<lparr>text_R := rest, trace := trace c @ [EvReadByte]\<rparr>))"

definition ErrorLog_Printf :: "Conn \<Rightarrow> go_error \<Rightarrow> Conn" where
  "ErrorLog_Printf c e = c\<lparr>trace := trace c @ [EvErrorLog e]\<rparr>"

subsection \<open>The decoder\<close>

datatype dstate =
    stateBeginLine
  | stateDot
  | stateDotCR
  | stateCR
  | stateData
  | stateEOF

record dataReader =
  dr_c :: Conn
  dr_state :: dstate
  dr_limited :: bool
  dr_n :: int

definition newDataReader :: "Conn \<Rightarrow> dataReader" where
  "newDataReader c =
     (let dr = \<lparr>dr_c = c, dr_state = stateBeginLine, dr_limited = False, dr_n = 0\<rparr>
      in if MaxMessageBytes (server c) > 0
         then dr\<lparr>dr_limited := True, dr_n := MaxMessageBytes (server c)\<rparr>
         else dr)"

text \<open>
  The \<^verbatim>\<open>switch r.state\<close> of the loop body, for one byte \<open>c\<close>: the new state, and whether
  control reaches \<^verbatim>\<open>b[n] = c; n++\<close> (a \<^verbatim>\<open>continue\<close> skips it; the \<^verbatim>\<open>break\<close> of
  \<^verbatim>\<open>stateCR\<close> leaves the switch only).  The switch has no case for \<^verbatim>\<open>stateEOF\<close>.
\<close>

fun transition :: "dstate \<Rightarrow> byte \<Rightarrow> dstate \<times> bool" where
  "transition stateBeginLine c =
     (if c = DOT then (stateDot, False) else (stateData, True))"
| "transition stateDot c =
     (if c = CR then (stateDotCR, False)
      else if c = LF then (stateEOF, False)
      else (stateData, True))"
| "transition stateDotCR c =
     (if c = LF then (stateEOF, False) else (stateData, True))"
| "transition stateCR c =
     (if c = LF then (stateBeginLine, True) else (stateData, True))"
| "transition stateData c =
     (let s1 = (if c = CR then stateCR else stateData);
          s2 = (if c = LF then stateBeginLine else s1)
      in (s2, True))"
| "transition stateEOF c = (stateEOF, True)"

text \<open>The deadline is armed only when a read timeout is configured.\<close>

definition arm_deadline :: "Conn \<Rightarrow> go_error option \<times> Conn" where
  "arm_deadline c =
     (if ReadTimeout (server c) \<noteq> 0 then SetReadDeadline c else (None, c))"

text \<open>
  The \<^verbatim>\<open>for n < len(b) && r.state != stateEOF\<close> loop.  \<open>len_b\<close> is the length of the
  (possibly shortened) buffer, \<open>out\<close> the bytes \<open>b[0:n]\<close> written so far; the result
  carries the value of \<^verbatim>\<open>err\<close> when the loop is left.
\<close>

function read_loop ::
  "nat \<Rightarrow> Conn \<Rightarrow> dstate \<Rightarrow> byte list \<Rightarrow> Conn \<times> dstate \<times> byte list \<times> go_error option"
where
  "read_loop len_b c st out =
     (if length out < len_b \<and> st \<noteq> stateEOF then
        (case arm_deadline c of
           (Some e, c1) \<Rightarrow> (c1, st, out, Some e)
         | (None, c1) \<Rightarrow>
             (case ReadByte c1 of
                (Inl e, c2) \<Rightarrow>
                  (let e1 = (if e = io_EOF then io_ErrUnexpectedEOF else e)
                   in if is_net_timeout e1
                      then (ErrorLog_Printf c2 e1, st, out, Some (SMTPErr ErrDataTimeout))
                      else (c2, st, out, Some e1))
              | (Inr b, c2) \<Rightarrow>
                  (case transition st b of
                     (st', emit) \<Rightarrow>
                       read_loop len_b c2 st' (if emit then out @ [b] else out))))
      else (c, st, out, None))"
  by pat_completeness auto

lemma text_R_arm_deadline: "(r, c1) = arm_deadline c \<Longrightarrow> text_R c1 = text_R c"
  by (auto simp: arm_deadline_def SetReadDeadline_def split: if_splits list.splits)

lemma text_R_ReadByte:
  "(Inr b, c2) = ReadByte c \<Longrightarrow> length (text_R c2) < length (text_R c)"
  by (auto simp: ReadByte_def split: list.splits read_outcome.splits)

termination read_loop
  by (relation "measure (\<lambda>(len_b, c, st, out). length (text_R c))")
     (auto dest!: text_R_arm_deadline text_R_ReadByte)

declare read_loop.simps [simp del]

text \<open>
  The buffer the loop fills: \<^verbatim>\<open>if int64(len(b)) > r.n { b = b[0:r.n] }\<close> for a limited
  reader.
\<close>

definition effective_len :: "dataReader \<Rightarrow> nat \<Rightarrow> nat" where
  "effective_len r len_b =
     (if dr_limited r \<and> int len_b > dr_n r then nat (dr_n r) else len_b)"

text \<open>
  \<^verbatim>\<open>func (r *dataReader) Read(b []byte) (n int, err error)\<close>.  The argument is \<open>len(b)\<close>;
  the result is \<open>b[0:n]\<close>, \<open>err\<close> and the reader after the call.  \<open>r.n\<close> is an int64;
  it starts from the configured maximum and a call subtracts at most \<open>r.n\<close> from it, so the
  subtraction cannot wrap and the field is an unbounded integer here.
\<close>

definition Read :: "dataReader \<Rightarrow> nat \<Rightarrow> byte list \<times> go_error option \<times> dataReader" where
  "Read r len_b =
     (if dr_limited r \<and> dr_n r \<le> 0 then ([], Some (SMTPErr ErrDataTooLarge), r)
      else
        (case read_loop (effective_len r len_b) (dr_c r) (dr_state r) [] of
           (c', st', out, err) \<Rightarrow>
             (let err' = (if err = None \<and> st' = stateEOF then Some io_EOF else err);
                  n' = (if dr_limited r then dr_n r - int (length out) else dr_n r)
              in (out, err', r\<lparr>dr_c := c', dr_state := st', dr_n := n'\<rparr>))))"

subsection \<open>Callers and scenarios\<close>

text \<open>
  The caller's side, for the properties that speak of successive calls.  \<open>read_calls\<close>
  performs one \<open>Read\<close> for each buffer length of the list, whatever the calls return,
  and collects the results.  \<open>read_to_end\<close> is the usual consumer of a reader: it calls
  \<open>Read\<close> with the buffer lengths of the list in turn, appends the chunks and stops at
  the first call that returns an error (\<open>io.EOF\<close> included).
\<close>

fun read_calls ::
  "dataReader \<Rightarrow> nat list \<Rightarrow> (byte list \<times> go_error option) list \<times> dataReader"
where
  "read_calls r [] = ([], r)"
| "read_calls r (k # ks) =
     (case Read r k of
        (out, err, r') \<Rightarrow>
          (case read_calls r' ks of (res, r'') \<Rightarrow> ((out, err) # res, r'')))"

fun read_to_end :: "dataReader \<Rightarrow> nat list \<Rightarrow> byte list \<times> go_error option \<times> dataReader"
where
  "read_to_end r [] = ([], None, r)"
| "read_to_end r (k # ks) =
     (case Read r k of
        (out, Some e, r') \<Rightarrow> (out, Some e, r')
      | (out, None, r') \<Rightarrow>
          (case read_to_end r' ks of (out', err, r'') \<Rightarrow> (out @ out', err, r'')))"

text \<open>
  No coming \<^verbatim>\<open>SetReadDeadline\<close> call fails (none is made when no read timeout is
  configured).
\<close>

definition deadlines_succeed :: "Conn \<Rightarrow> bool" where
  "deadlines_succeed c =
     (ReadTimeout (server c) = 0 \<or> list_all (\<lambda>res. res = None) (deadline_results c))"

text \<open>
  What the loop does to a run of bytes that the source delivers without error, when the
  buffer never fills: the state reached, the bytes written, and the bytes left unread
  because the state machine arrived at \<^verbatim>\<open>stateEOF\<close> before them.
\<close>

fun decode :: "dstate \<Rightarrow> byte list \<Rightarrow> dstate \<times> byte list \<times> byte list" where
  "decode st [] = (st, [], [])"
| "decode st (b # bs) =
     (if st = stateEOF then (st, [], b # bs)
      else
        (case transition st b of
           (st', emit) \<Rightarrow>
             (case decode st' bs of
                (sf, out, unread) \<Rightarrow> (sf, if emit then b # out else out, unread))))"

text \<open>
  The calls one successful loop iteration makes on the connection, and the connection
  after \<open>j\<close> such iterations.
\<close>

definition byte_events :: "Server \<Rightarrow> event list" where
  "byte_events s = (if ReadTimeout s \<noteq> 0 then [EvSetReadDeadline, EvReadByte] else [EvReadByte])"

definition after_read :: "Conn \<Rightarrow> Conn" where
  "after_read c = snd (ReadByte (snd (arm_deadline c)))"

primrec after_reads :: "Conn \<Rightarrow> nat \<Rightarrow> Conn" where
  "after_reads c 0 = c"
| "after_reads c (Suc j) = after_reads (after_read c) j"

text \<open>
  What the next \<^verbatim>\<open>ReadByte\<close> fails with, if it fails, for a given list of coming
  outcomes.
\<close>

fun source_error :: "read_outcome list \<Rightarrow> go_error option" where
  "source_error [] = Some io_EOF"
| "source_error (RErr e # _) = Some e"
| "source_error (RByte _ # _) = None"

text \<open>
  A property of a sequence of calls: every \<^verbatim>\<open>ReadByte\<close> comes directly after a
  \<^verbatim>\<open>SetReadDeadline\<close> of its own.
\<close>

fun deadline_before_each_read :: "event list \<Rightarrow> bool" where
  "deadline_before_each_read [] = True"
| "deadline_before_each_read (EvSetReadDeadline # EvReadByte # es) = deadline_before_each_read es"
| "deadline_before_each_read (EvReadByte # es) = False"
| "deadline_before_each_read (_ # es) = deadline_before_each_read es"

text \<open>
  A connection on which nothing has happened yet: the configured maximum size and read
  timeout, the coming outcomes of the byte source, no \<^verbatim>\<open>SetReadDeadline\<close> failure
  ahead and an empty trace.
\<close>

definition fresh_conn :: "int \<Rightarrow> int \<Rightarrow> read_outcome list \<Rightarrow> Conn" where
  "fresh_conn m t src =
     \<lparr>server = \<lparr>MaxMessageBytes = m, ReadTimeout = t\<rparr>, text_R = src,
      deadline_results = [], trace = []\<rparr>"

text \<open>
  A limited reader that has arrived at \<^verbatim>\<open>stateEOF\<close> has not used up its allowance.
\<close>

definition eof_within_limit :: "dataReader \<Rightarrow> bool" where
  "eof_within_limit r = (dr_limited r \<and> dr_state r = stateEOF \<longrightarrow> 0 < dr_n r)"

text \<open>
  Modelled from the spec: the sender's side of the framing, which is not part of data.go.
  A message body is a list of lines, each line the bytes before its CRLF.  Dot-stuffing
  prefixes an extra \<open>'.'\<close> to each line beginning with \<open>'.'\<close>, and the terminator line
  \<open>.\<close> CRLF is appended.
\<close>

definition stuff_line :: "byte list \<Rightarrow> byte list" where
  "stuff_line l = (case l of [] \<Rightarrow> [] | b # bs \<Rightarrow> if b = DOT then DOT # b # bs else b # bs)"

definition dot_stuff :: "byte list list \<Rightarrow> byte list" where
  "dot_stuff ls = concat (map (\<lambda>l. stuff_line l @ [CR, LF]) ls) @ [DOT, CR, LF]"

definition message_bytes :: "byte list list \<Rightarrow> byte list" where
  "message_bytes ls = concat (map (\<lambda>l. l @ [CR, LF]) ls)"

section \<open>Error values\<close>

lemma go_quo_100: "go_quo a 100 = 4 \<longleftrightarrow> 400 \<le> a \<and> a \<le> 499"
  by (auto simp: go_quo_def)

text \<open>
  C10: \<open>Temporary\<close> holds exactly for the codes of the 4xx class (those whose quotient by
  100, truncated as Go does, is 4, that is 400 to 499); the read-timeout error (451) is
  temporary and the size-exceeded error (552) is not.
\<close>

theorem Temporary_iff_4xx:
  "(Temporary err \<longleftrightarrow> go_quo (Code err) 100 = 4)
   \<and> (Temporary err \<longleftrightarrow> 400 \<le> Code err \<and> Code err \<le> 499)
   \<and> Temporary ErrDataTimeout \<and> \<not> Temporary ErrDataTooLarge"
  by (simp add: Temporary_def go_quo_100 ErrDataTimeout_def ErrDataTooLarge_def)

section \<open>The loop on a connection that delivers bytes\<close>

lemma read_loop_done:
  "\<not> (length out < k \<and> st \<noteq> stateEOF) \<Longrightarrow> read_loop k c st out = (c, st, out, None)"
  by (subst read_loop.simps) auto

lemma arm_deadline_ok: "deadlines_succeed c \<Longrightarrow> fst (arm_deadline c) = None"
  by (auto simp: arm_deadline_def SetReadDeadline_def deadlines_succeed_def split: list.splits)

lemma server_arm_deadline [simp]: "server (snd (arm_deadline c)) = server c"
  by (simp add: arm_deadline_def SetReadDeadline_def split: list.splits)

lemma text_R_arm [simp]: "text_R (snd (arm_deadline c)) = text_R c"
  by (simp add: arm_deadline_def SetReadDeadline_def split: list.splits)

lemma trace_arm_deadline:
  "trace (snd (arm_deadline c)) =
     trace c @ (if ReadTimeout (server c) \<noteq> 0 then [EvSetReadDeadline] else [])"
  by (simp add: arm_deadline_def SetReadDeadline_def split: list.splits)

lemma deadlines_succeed_arm:
  "deadlines_succeed c \<Longrightarrow> deadlines_succeed (snd (arm_deadline c))"
  by (auto simp: arm_deadline_def SetReadDeadline_def deadlines_succeed_def split: list.splits)

lemma server_ReadByte [simp]: "server (snd (ReadByte c)) = server c"
  by (simp add: ReadByte_def split: list.splits read_outcome.splits)

lemma deadline_results_ReadByte [simp]:
  "deadline_results (snd (ReadByte c)) = deadline_results c"
  by (simp add: ReadByte_def split: list.splits read_outcome.splits)

lemma text_R_ReadByte_tl [simp]: "text_R (snd (ReadByte c)) = tl (text_R c)"
  by (simp add: ReadByte_def split: list.splits read_outcome.splits)

lemma trace_ReadByte: "trace (snd (ReadByte c)) = trace c @ [EvReadByte]"
  by (simp add: ReadByte_def split: list.splits read_outcome.splits)

lemma fst_ReadByte:
  "fst (ReadByte c) =
     (case text_R c of [] \<Rightarrow> Inl io_EOF | RByte b # _ \<Rightarrow> Inr b | RErr e # _ \<Rightarrow> Inl e)"
  by (simp add: ReadByte_def split: list.splits read_outcome.splits)

lemma server_after_read [simp]: "server (after_read c) = server c"
  by (simp add: after_read_def)

lemma text_R_after_read [simp]: "text_R (after_read c) = tl (text_R c)"
  by (simp add: after_read_def)

lemma trace_after_read: "trace (after_read c) = trace c @ byte_events (server c)"
  by (simp add: after_read_def trace_ReadByte trace_arm_deadline byte_events_def)

lemma deadlines_succeed_after_read [simp]:
  "deadlines_succeed c \<Longrightarrow> deadlines_succeed (after_read c)"
  using deadlines_succeed_arm [of c]
  by (simp add: after_read_def deadlines_succeed_def)

lemma server_after_reads [simp]: "server (after_reads c j) = server c"
  by (induction j arbitrary: c) simp_all

lemma text_R_after_reads [simp]: "text_R (after_reads c j) = drop j (text_R c)"
  by (induction j arbitrary: c) (simp_all add: drop_Suc)

lemma trace_after_reads:
  "trace (after_reads c j) = trace c @ concat (replicate j (byte_events (server c)))"
  by (induction j arbitrary: c) (simp_all add: trace_after_read)

lemma deadlines_succeed_after_reads [simp]:
  "deadlines_succeed c \<Longrightarrow> deadlines_succeed (after_reads c j)"
  by (induction j arbitrary: c) simp_all

lemma after_reads_add: "after_reads (after_reads c i) j = after_reads c (i + j)"
  by (induction i arbitrary: c) simp_all

lemma read_loop_byte:
  assumes "length out < k" "st \<noteq> stateEOF" "deadlines_succeed c" "text_R c = RByte b # rest"
  shows "read_loop k c st out =
         read_loop k (after_read c) (fst (transition st b))
           (if snd (transition st b) then out @ [b] else out)"
proof -
  obtain c1 where c1: "arm_deadline c = (None, c1)"
    using arm_deadline_ok [OF assms(3)] by (cases "arm_deadline c") auto
  have "fst (ReadByte c1) = Inr b"
    using c1 assms(4) text_R_arm [of c] by (simp add: fst_ReadByte)
  then have c2: "ReadByte c1 = (Inr b, after_read c)"
    using c1 by (cases "ReadByte c1") (simp add: after_read_def)
  show ?thesis
    using assms(1,2) by (subst read_loop.simps) (simp add: c1 c2 split: prod.splits)
qed

lemma read_loop_error:
  assumes "length out < k" "st \<noteq> stateEOF" "deadlines_succeed c"
    "fst (ReadByte (snd (arm_deadline c))) = Inl e"
  shows "read_loop k c st out =
          (let e1 = (if e = io_EOF then io_ErrUnexpectedEOF else e)
           in if is_net_timeout e1
              then (ErrorLog_Printf (after_read c) e1, st, out, Some (SMTPErr ErrDataTimeout))
              else (after_read c, st, out, Some e1))"
proof -
  obtain c1 where c1: "arm_deadline c = (None, c1)"
    using arm_deadline_ok [OF assms(3)] by (cases "arm_deadline c") auto
  have c2: "ReadByte c1 = (Inl e, after_read c)"
    using c1 assms(4) by (cases "ReadByte c1") (simp add: after_read_def)
  show ?thesis
    using assms(1,2) by (subst read_loop.simps) (simp add: c1 c2 Let_def)
qed


lemma decode_Cons_consumed:
  assumes "decode st (b # bs) = (sf, out, [])"
  shows "st \<noteq> stateEOF \<and>
         decode (fst (transition st b)) bs =
           (sf, (if snd (transition st b) then tl out else out), []) \<and>
         (snd (transition st b) \<longrightarrow> out \<noteq> [] \<and> hd out = b)"
  using assms by (auto split: if_splits prod.splits)

lemma read_loop_run:
  assumes "text_R c = map RByte bs @ tail" "deadlines_succeed c"
    "decode st bs = (sf, out', [])" "length out + length out' < k"
  shows "read_loop k c st out = read_loop k (after_reads c (length bs)) sf (out @ out')"
  using assms
proof (induction bs arbitrary: c st out out')
  case Nil
  then show ?case by simp
next
  case (Cons b bs)
  let ?s1 = "fst (transition st b)" and ?e = "snd (transition st b)"
  let ?out1 = "if ?e then out @ [b] else out" and ?o1 = "if ?e then tl out' else out'"
  from decode_Cons_consumed [OF Cons.prems(3)]
  have st: "st \<noteq> stateEOF" and d1: "decode ?s1 bs = (sf, ?o1, [])"
    and hd: "?e \<longrightarrow> out' \<noteq> [] \<and> hd out' = b" by simp_all
  have app: "?out1 @ ?o1 = out @ out'"
    using hd by (cases out') auto
  have len: "length ?out1 + length ?o1 < k"
    using Cons.prems(4) hd by (cases out') auto
  have "read_loop k c st out = read_loop k (after_read c) ?s1 ?out1"
    using Cons.prems st by (intro read_loop_byte [where rest = "map RByte bs @ tail"]) auto
  also have "\<dots> = read_loop k (after_reads (after_read c) (length bs)) sf (?out1 @ ?o1)"
    using Cons.prems(1,2) d1 len by (intro Cons.IH) auto
  finally show ?case by (simp add: app)
qed

lemma read_loop_chunk:
  assumes "text_R c = map RByte bs @ tail" "deadlines_succeed c"
    "decode st bs = (stateEOF, out', [])" "length out \<le> k"
  shows "\<exists>j st'. j \<le> length bs \<and>
           read_loop k c st out =
             (after_reads c j, st', out @ take (k - length out) out', None) \<and>
           decode st' (drop j bs) = (stateEOF, drop (k - length out) out', []) \<and>
           (length out + length out' < k \<longrightarrow> st' = stateEOF \<and> j = length bs)"
  using assms
proof (induction bs arbitrary: c st out out')
  case Nil
  then have "read_loop k c st out = (after_reads c 0, st, out, None)"
    by (simp add: read_loop_done)
  with Nil show ?case by auto
next
  case (Cons b bs)
  let ?s1 = "fst (transition st b)" and ?e = "snd (transition st b)"
  let ?out1 = "if ?e then out @ [b] else out" and ?o1 = "if ?e then tl out' else out'"
  from decode_Cons_consumed [OF Cons.prems(3)]
  have st: "st \<noteq> stateEOF" and d1: "decode ?s1 bs = (stateEOF, ?o1, [])"
    and hd: "?e \<longrightarrow> out' \<noteq> [] \<and> hd out' = b" by simp_all
  show ?case
  proof (cases "length out < k")
    case False
    then have "read_loop k c st out = (after_reads c 0, st, out, None)"
      by (simp add: read_loop_done)
    with False Cons.prems(3,4) show ?thesis
      by (intro exI [of _ 0] exI [of _ st]) simp
  next
    case True
    have step: "read_loop k c st out = read_loop k (after_read c) ?s1 ?out1"
      using Cons.prems st True
      by (intro read_loop_byte [where rest = "map RByte bs @ tail"]) auto
    have len1: "length ?out1 \<le> k" using True by simp
    have "text_R (after_read c) = map RByte bs @ tail" using Cons.prems(1) by simp
    from Cons.IH [OF this _ d1 len1] Cons.prems(2)
    obtain j st' where j: "j \<le> length bs"
      and rl: "read_loop k (after_read c) ?s1 ?out1 =
                 (after_reads (after_read c) j, st', ?out1 @ take (k - length ?out1) ?o1, None)"
      and dec: "decode st' (drop j bs) = (stateEOF, drop (k - length ?out1) ?o1, [])"
      and fin: "length ?out1 + length ?o1 < k \<longrightarrow> st' = stateEOF \<and> j = length bs"
      by auto
    obtain m where m: "k - length out = Suc m"
      using True by (cases "k - length out") auto
    then have m': "k - Suc (length out) = m" by simp
    have tk: "?out1 @ take (k - length ?out1) ?o1 = out @ take (k - length out) out'"
      using hd m m' by (cases out') auto
    have dr: "drop (k - length ?out1) ?o1 = drop (k - length out) out'"
      using hd m m' by (cases out') auto
    have ln: "length ?out1 + length ?o1 = length out + length out'"
      using hd by (cases out') auto
    show ?thesis
      using j step rl dec fin tk dr ln
      by (intro exI [of _ "Suc j"] exI [of _ st']) simp
  qed
qed

section \<open>Bounds on one call\<close>

lemma transition_EOF_suppresses:
  "st \<noteq> stateEOF \<Longrightarrow> transition st b = (stateEOF, emit) \<Longrightarrow> \<not> emit"
  by (cases st) (auto split: if_splits simp: Let_def)

lemma read_loop_bounds:
  "read_loop k c st out = (c', st', out', err) \<Longrightarrow> length out \<le> k \<Longrightarrow>
   length out' \<le> k \<and> (st \<noteq> stateEOF \<and> st' = stateEOF \<longrightarrow> length out' < k)"
proof (induction k c st out rule: read_loop.induct)
  case (1 k c st out)
  show ?case
  proof (cases "length out < k \<and> st \<noteq> stateEOF")
    case False
    with "1.prems" show ?thesis by (simp add: read_loop_done)
  next
    case True
    obtain r1 c1 where a: "arm_deadline c = (r1, c1)" by (cases "arm_deadline c")
    obtain r2 c2 where b: "ReadByte c1 = (r2, c2)" by (cases "ReadByte c1")
    show ?thesis
    proof (cases r1)
      case (Some e)
      with "1.prems" True a show ?thesis
        by (subst (asm) read_loop.simps) auto
    next
      case None
      show ?thesis
      proof (cases r2)
        case (Inl e)
        with "1.prems" True a b None show ?thesis
          by (subst (asm) read_loop.simps) (auto simp: Let_def split: if_splits)
      next
        case (Inr byte)
        obtain s1 emit where t: "transition st byte = (s1, emit)"
          by (cases "transition st byte")
        let ?out1 = "if emit then out @ [byte] else out"
        have rl: "read_loop k c2 s1 ?out1 = (c', st', out', err)"
          using "1.prems"(1) True a b None Inr t
          by (subst (asm) read_loop.simps) simp
        have len: "length ?out1 \<le> k" using True by simp
        have IH: "length out' \<le> k \<and> (s1 \<noteq> stateEOF \<and> st' = stateEOF \<longrightarrow> length out' < k)"
          using "1.IH" [OF True a [symmetric] None b [symmetric] Inr t [symmetric] rl len] .
        show ?thesis
        proof (cases "s1 = stateEOF")
          case False
          with IH show ?thesis by simp
        next
          case s1: True
          with t True have "\<not> emit" using transition_EOF_suppresses by blast
          with rl s1 True show ?thesis by (simp add: read_loop_done)
        qed
      qed
    qed
  qed
qed

lemma Read_bounds:
  assumes "Read r k = (out, err, r')"
  shows "dr_limited r' = dr_limited r"
    and "length out \<le> k"
    and "dr_limited r \<Longrightarrow> 0 \<le> dr_n r \<Longrightarrow> int (length out) \<le> dr_n r"
    and "dr_limited r \<Longrightarrow> dr_n r' = dr_n r - int (length out)"
    and "dr_limited r \<Longrightarrow> dr_state r' = stateEOF \<Longrightarrow> dr_state r \<noteq> stateEOF \<Longrightarrow>
         int (length out) < dr_n r"
    and "dr_state r = stateEOF \<Longrightarrow> dr_state r' = stateEOF"
proof -
  show "dr_limited r' = dr_limited r"
    using assms by (auto simp: Read_def Let_def split: if_splits prod.splits)
  obtain c' st' out1 e1 where
    rl: "read_loop (effective_len r k) (dr_c r) (dr_state r) [] = (c', st', out1, e1)"
    by (cases "read_loop (effective_len r k) (dr_c r) (dr_state r) []") auto
  from read_loop_bounds [OF rl]
  have b: "length out1 \<le> effective_len r k"
    "dr_state r \<noteq> stateEOF \<and> st' = stateEOF \<longrightarrow> length out1 < effective_len r k"
    by simp_all
  have eff: "effective_len r k \<le> k"
    "dr_limited r \<Longrightarrow> 0 \<le> dr_n r \<Longrightarrow> int (effective_len r k) \<le> dr_n r"
    by (auto simp: effective_len_def)
  show "length out \<le> k"
    using assms rl b eff by (auto simp: Read_def Let_def split: if_splits)
  show "dr_limited r \<Longrightarrow> 0 \<le> dr_n r \<Longrightarrow> int (length out) \<le> dr_n r"
    using assms rl b eff by (auto simp: Read_def Let_def split: if_splits)
  show "dr_limited r \<Longrightarrow> dr_n r' = dr_n r - int (length out)"
    using assms rl by (auto simp: Read_def Let_def split: if_splits)
  show "dr_limited r \<Longrightarrow> dr_state r' = stateEOF \<Longrightarrow> dr_state r \<noteq> stateEOF \<Longrightarrow>
         int (length out) < dr_n r"
    using assms rl b eff by (auto simp: Read_def Let_def split: if_splits)
  show "dr_state r = stateEOF \<Longrightarrow> dr_state r' = stateEOF"
    using assms rl by (auto simp: Read_def Let_def read_loop_done split: if_splits)
qed

lemma Read_too_large:
  "dr_limited r \<Longrightarrow> dr_n r \<le> 0 \<Longrightarrow> Read r k = ([], Some (SMTPErr ErrDataTooLarge), r)"
  by (simp add: Read_def)

lemma Read_at_EOF:
  "dr_state r = stateEOF \<Longrightarrow> \<not> (dr_limited r \<and> dr_n r \<le> 0) \<Longrightarrow>
   Read r k = ([], Some io_EOF, r)"
  by (auto simp: Read_def read_loop_done)

section \<open>Size limit\<close>

text \<open>
  C9: for a size-limited decoder whose remaining allowance is not positive when \<open>Read\<close>
  is called, the call returns no bytes and \<open>ErrDataTooLarge\<close>, whatever the state (also
  \<open>stateEOF\<close>) and the buffer length (also 0), and the reader, with its connection, is
  left as it was: nothing is read from the source.
\<close>

theorem Read_size_check_first:
  assumes "dr_limited r" "dr_n r \<le> 0"
  shows "Read r len_b = ([], Some (SMTPErr ErrDataTooLarge), r)"
  using assms by (simp add: Read_def)

theorem Read_size_check_first_witness:
  "Read \<lparr>dr_c = fresh_conn 1 0 [RByte 97], dr_state = stateEOF, dr_limited = True, dr_n = 0\<rparr> 0
   = ([], Some (SMTPErr ErrDataTooLarge),
      \<lparr>dr_c = fresh_conn 1 0 [RByte 97], dr_state = stateEOF, dr_limited = True, dr_n = 0\<rparr>)"
  using Read_size_check_first
    [of "\<lparr>dr_c = fresh_conn 1 0 [RByte 97], dr_state = stateEOF, dr_limited = True, dr_n = 0\<rparr>" 0]
  by simp

lemma read_calls_too_large:
  "dr_limited r \<Longrightarrow> dr_n r \<le> 0 \<Longrightarrow>
   read_calls r ks = (replicate (length ks) ([], Some (SMTPErr ErrDataTooLarge)), r)"
  by (induction ks) (simp_all add: Read_too_large)

lemma read_calls_limit:
  "dr_limited r \<Longrightarrow> 0 \<le> dr_n r \<Longrightarrow> read_calls r ks = (results, r') \<Longrightarrow>
   dr_limited r' \<and> 0 \<le> dr_n r' \<and> int (length (concat (map fst results))) + dr_n r' = dr_n r"
proof (induction ks arbitrary: r results r')
  case Nil
  then show ?case by simp
next
  case (Cons k ks)
  obtain out err r1 where rd: "Read r k = (out, err, r1)" by (cases "Read r k") auto
  obtain res r2 where rc: "read_calls r1 ks = (res, r2)" by (cases "read_calls r1 ks")
  from Read_bounds(1,3,4) [OF rd] Cons.prems(1,2)
  have r1: "dr_limited r1" "0 \<le> dr_n r1" "dr_n r1 = dr_n r - int (length out)" by simp_all
  from Cons.IH [OF r1(1,2) rc]
  have "dr_limited r2 \<and> 0 \<le> dr_n r2 \<and> int (length (concat (map fst res))) + dr_n r2 = dr_n r1" .
  moreover have "results = (out, err) # res" "r' = r2"
    using Cons.prems(3) rd rc by simp_all
  ultimately show ?case using r1(3) by simp
qed

lemma newDataReader_limited:
  "0 < MaxMessageBytes (server c) \<Longrightarrow>
   dr_limited (newDataReader c) \<and> dr_n (newDataReader c) = MaxMessageBytes (server c)"
  by (simp add: newDataReader_def)

text \<open>
  C4: a decoder constructed with a maximum message size \<open>m > 0\<close>, after any sequence of
  \<open>Read\<close> calls: the bytes emitted by all the calls together are at most \<open>m\<close>; a further
  call emits at most \<open>min (len b) remaining\<close> bytes and does not increase the
  remaining counter; and once the counter is not positive, every further call returns no
  bytes and the size-exceeded error (552, 5.3.4) and leaves the reader, with its source,
  untouched.
\<close>

theorem size_limit_enforced:
  assumes "MaxMessageBytes (server c) = m" "0 < m"
    "read_calls (newDataReader c) ks = (results, r)"
  shows "int (length (concat (map fst results))) \<le> m
       \<and> int (length (fst (Read r len_b))) \<le> min (int len_b) (dr_n r)
       \<and> dr_n (snd (snd (Read r len_b))) \<le> dr_n r
       \<and> (dr_n r \<le> 0 \<longrightarrow>
            read_calls r ks' = (replicate (length ks') ([], Some (SMTPErr ErrDataTooLarge)), r))
       \<and> Code ErrDataTooLarge = 552 \<and> EnhancedCode ErrDataTooLarge = (5, 3, 4)"
proof -
  from newDataReader_limited [of c] assms(1,2)
  have r0: "dr_limited (newDataReader c)" "0 \<le> dr_n (newDataReader c)"
    "dr_n (newDataReader c) = m" by simp_all
  from read_calls_limit [OF r0(1,2) assms(3)] r0(3)
  have r: "dr_limited r" "0 \<le> dr_n r"
    and total: "int (length (concat (map fst results))) + dr_n r = m" by simp_all
  obtain out err r' where rd: "Read r len_b = (out, err, r')" by (cases "Read r len_b") auto
  from Read_bounds(2,3,4) [OF rd] r
  have "int (length out) \<le> int len_b" "int (length out) \<le> dr_n r"
    "dr_n r' = dr_n r - int (length out)" by simp_all
  then have one: "int (length (fst (Read r len_b))) \<le> min (int len_b) (dr_n r)"
    "dr_n (snd (snd (Read r len_b))) \<le> dr_n r"
    using rd by simp_all
  show ?thesis
    using total r one read_calls_too_large [of r ks']
    by (simp add: ErrDataTooLarge_def)
qed

theorem size_limit_enforced_witness:
  "MaxMessageBytes (server (fresh_conn 3 5 (map RByte [97, CR, LF, DOT, CR, LF]))) = 3
   \<and> int (length (concat (map fst (fst
         (read_calls (newDataReader (fresh_conn 3 5 (map RByte [97, CR, LF, DOT, CR, LF])))
            [2, 2]))))) \<le> 3
   \<and> dr_n (snd (read_calls (newDataReader (fresh_conn 3 5 (map RByte [97, CR, LF, DOT, CR, LF])))
         [2, 2])) \<le> 0
   \<and> read_calls
        (snd (read_calls (newDataReader (fresh_conn 3 5 (map RByte [97, CR, LF, DOT, CR, LF])))
           [2, 2])) [4, 4]
       = (replicate (length [4, 4 :: nat]) ([], Some (SMTPErr ErrDataTooLarge)),
          snd (read_calls (newDataReader (fresh_conn 3 5 (map RByte [97, CR, LF, DOT, CR, LF])))
             [2, 2]))"
proof -
  let ?c = "fresh_conn 3 5 (map RByte [97, CR, LF, DOT, CR, LF])"
  let ?rc = "read_calls (newDataReader ?c) [2, 2]"
  have m: "MaxMessageBytes (server ?c) = 3" by (simp add: fresh_conn_def)
  have pos: "(0::int) < 3" by simp
  have calls: "?rc = (fst ?rc, snd ?rc)" by simp
  have n0: "dr_n (snd ?rc) \<le> 0" by code_simp
  from size_limit_enforced [OF m pos calls, of 0 "[4, 4]"] m n0
  show ?thesis by blast
qed

section \<open>After the terminator\<close>

lemma eof_within_limit_new: "eof_within_limit (newDataReader c)"
  by (simp add: eof_within_limit_def newDataReader_def Let_def)

lemma eof_within_limit_Read:
  assumes "eof_within_limit r" "Read r k = (out, err, r')"
  shows "eof_within_limit r'"
proof (cases "dr_state r = stateEOF")
  case True
  show ?thesis
  proof (cases "dr_limited r \<and> dr_n r \<le> 0")
    case True
    with assms show ?thesis by (simp add: Read_too_large)
  next
    case False
    with assms True show ?thesis by (simp add: Read_at_EOF)
  qed
next
  case False
  from Read_bounds(1,4,5) [OF assms(2)] False
  show ?thesis by (auto simp: eof_within_limit_def)
qed

lemma eof_within_limit_read_calls:
  "eof_within_limit r \<Longrightarrow> eof_within_limit (snd (read_calls r ks))"
proof (induction ks arbitrary: r)
  case Nil
  then show ?case by simp
next
  case (Cons k ks)
  obtain out err r1 where rd: "Read r k = (out, err, r1)" by (cases "Read r k") auto
  from eof_within_limit_Read [OF Cons.prems rd] have "eof_within_limit r1" .
  from Cons.IH [OF this] rd show ?case by (auto split: prod.splits)
qed

lemma read_calls_at_EOF:
  "dr_state r = stateEOF \<Longrightarrow> \<not> (dr_limited r \<and> dr_n r \<le> 0) \<Longrightarrow>
   read_calls r ks = (replicate (length ks) ([], Some io_EOF), r)"
  by (induction ks) (simp_all add: Read_at_EOF)

text \<open>
  C8: take a decoder from its constructor through any sequence of \<open>Read\<close> calls; if it
  is then in the terminator state, a further \<open>Read\<close>, with a buffer of any length,
  returns no bytes together with \<open>io.EOF\<close> and leaves the reader and its connection as
  they were (nothing is read from the source, no deadline is set), and so does every call
  after it.
\<close>

theorem Read_after_terminator:
  assumes "r = snd (read_calls (newDataReader c) ks)" "dr_state r = stateEOF"
  shows "Read r len_b = ([], Some io_EOF, r)
       \<and> read_calls r ks' = (replicate (length ks') ([], Some io_EOF), r)"
proof -
  have "eof_within_limit r"
    using assms(1) eof_within_limit_read_calls [OF eof_within_limit_new] by simp
  with assms(2) have "\<not> (dr_limited r \<and> dr_n r \<le> 0)"
    by (auto simp: eof_within_limit_def)
  with assms(2) show ?thesis
    by (simp add: Read_at_EOF read_calls_at_EOF)
qed

theorem Read_after_terminator_witness:
  "dr_state (snd (read_calls (newDataReader (fresh_conn 4 5 (map RByte [97, CR, LF, DOT, CR, LF])))
      [2, 3])) = stateEOF
   \<and> read_calls
        (snd (read_calls (newDataReader (fresh_conn 4 5 (map RByte [97, CR, LF, DOT, CR, LF])))
           [2, 3])) [0, 7]
      = (replicate (length [0, 7 :: nat]) ([], Some io_EOF),
         snd (read_calls (newDataReader (fresh_conn 4 5 (map RByte [97, CR, LF, DOT, CR, LF])))
           [2, 3]))"
proof -
  let ?r = "snd (read_calls (newDataReader (fresh_conn 4 5 (map RByte [97, CR, LF, DOT, CR, LF])))
      [2, 3])"
  have st: "dr_state ?r = stateEOF" by code_simp
  from Read_after_terminator [OF refl st, of 0 "[0, 7]"] st
  show ?thesis by blast
qed

section \<open>The state machine on runs of bytes\<close>

lemma decode_EOF [simp]: "decode stateEOF bs = (stateEOF, [], bs)"
  by (cases bs) simp_all

lemma decode_append:
  "decode st xs = (sf, out, []) \<Longrightarrow>
   decode st (xs @ ys) = (case decode sf ys of (s, out2, unread) \<Rightarrow> (s, out @ out2, unread))"
proof (induction xs arbitrary: st out)
  case Nil
  then show ?case by (simp split: prod.splits)
next
  case (Cons b xs)
  from decode_Cons_consumed [OF Cons.prems]
  have st: "st \<noteq> stateEOF"
    and d1: "decode (fst (transition st b)) xs =
               (sf, (if snd (transition st b) then tl out else out), [])"
    and hd: "snd (transition st b) \<longrightarrow> out \<noteq> [] \<and> hd out = b" by simp_all
  from Cons.IH [OF d1] st hd show ?case
    by (cases out) (auto split: prod.splits)
qed

lemma decode_consumed_EOF:
  "decode st bs = (stateEOF, out, []) \<Longrightarrow> st = stateEOF \<Longrightarrow> bs = [] \<and> out = []"
  by (cases bs) auto

lemma decode_data_run:
  "LF \<notin> set l \<Longrightarrow> st = stateData \<or> st = stateCR \<Longrightarrow>
   \<exists>sf. (sf = stateData \<or> sf = stateCR) \<and> decode st l = (sf, l, [])"
proof (induction l arbitrary: st)
  case Nil
  then show ?case by simp
next
  case (Cons b l)
  let ?s1 = "fst (transition st b)"
  have s1: "?s1 = stateData \<or> ?s1 = stateCR" and em: "snd (transition st b)"
    using Cons.prems by (auto simp: Let_def)
  from Cons.IH [OF _ s1] Cons.prems(1)
  obtain sf where "sf = stateData \<or> sf = stateCR" "decode ?s1 l = (sf, l, [])" by auto
  with em Cons.prems(2) show ?case
    by (auto split: prod.splits)
qed

lemma decode_CRLF:
  "st \<noteq> stateDot \<Longrightarrow> st \<noteq> stateEOF \<Longrightarrow>
   decode st [CR, LF] = (stateBeginLine, [CR, LF], [])"
  by (cases st) (simp_all add: Let_def)

lemma decode_terminator: "decode stateBeginLine [DOT, CR, LF] = (stateEOF, [], [])"
  by simp

lemma decode_line_body:
  assumes "LF \<notin> set l" "st = stateData \<or> st = stateCR"
  shows "decode st (l @ [CR, LF]) = (stateBeginLine, l @ [CR, LF], [])"
proof -
  from decode_data_run [OF assms]
  obtain sf where sf: "sf = stateData \<or> sf = stateCR" and d: "decode st l = (sf, l, [])"
    by auto
  from sf have "decode sf [CR, LF] = (stateBeginLine, [CR, LF], [])"
    by (intro decode_CRLF) auto
  with decode_append [OF d, of "[CR, LF]"] show ?thesis by simp
qed

lemma decode_stuffed_line:
  assumes "LF \<notin> set l"
  shows "decode stateBeginLine (stuff_line l @ [CR, LF]) = (stateBeginLine, l @ [CR, LF], [])"
proof (cases l)
  case Nil
  then show ?thesis by (simp add: stuff_line_def)
next
  case (Cons b bs)
  have bs: "LF \<notin> set bs" and b: "b \<noteq> LF" using assms Cons by auto
  from decode_line_body [OF bs, of stateData]
  have d: "decode stateData (bs @ [CR, LF]) = (stateBeginLine, bs @ [CR, LF], [])" by simp
  show ?thesis
    using d b Cons by (simp add: stuff_line_def)
qed

lemma decode_dot_stuff_lines:
  "\<forall>l \<in> set ls. LF \<notin> set l \<Longrightarrow>
   decode stateBeginLine (concat (map (\<lambda>l. stuff_line l @ [CR, LF]) ls) @ rest) =
     (case decode stateBeginLine rest of
        (s, out2, unread) \<Rightarrow> (s, message_bytes ls @ out2, unread))"
proof (induction ls)
  case Nil
  then show ?case by (simp add: message_bytes_def split: prod.splits)
next
  case (Cons l ls)
  have l: "LF \<notin> set l" using Cons.prems by simp
  have "decode stateBeginLine
          ((stuff_line l @ [CR, LF]) @ (concat (map (\<lambda>l. stuff_line l @ [CR, LF]) ls) @ rest)) =
        (case decode stateBeginLine (concat (map (\<lambda>l. stuff_line l @ [CR, LF]) ls) @ rest) of
           (s, out2, unread) \<Rightarrow> (s, (l @ [CR, LF]) @ out2, unread))"
    by (rule decode_append [OF decode_stuffed_line [OF l]])
  with Cons show ?case
    by (simp add: message_bytes_def split: prod.splits)
qed

lemma decode_dot_stuff:
  "\<forall>l \<in> set ls. LF \<notin> set l \<Longrightarrow>
   decode stateBeginLine (dot_stuff ls) = (stateEOF, message_bytes ls, [])"
  using decode_dot_stuff_lines [of ls "[DOT, CR, LF]"]
  by (simp add: dot_stuff_def)

section \<open>Reading a message to its end\<close>

lemma text_R_after_reads_prefix:
  "text_R c = map RByte bs @ tail \<Longrightarrow> j \<le> length bs \<Longrightarrow>
   text_R (after_reads c j) = map RByte (drop j bs) @ tail"
  by (simp add: drop_map)

lemma Read_chunk:
  assumes src: "text_R (dr_c r) = map RByte bs @ tail"
    and dl: "deadlines_succeed (dr_c r)"
    and dec: "decode (dr_state r) bs = (stateEOF, out, [])"
    and lim: "dr_limited r \<longrightarrow> int (length out) < dr_n r"
  shows "\<exists>r' bs'.
           Read r k =
             (take k out, (if dr_state r' = stateEOF then Some io_EOF else None), r') \<and>
           text_R (dr_c r') = map RByte bs' @ tail \<and>
           deadlines_succeed (dr_c r') \<and>
           decode (dr_state r') bs' = (stateEOF, drop k out, []) \<and>
           dr_limited r' = dr_limited r \<and>
           dr_n r' = (if dr_limited r then dr_n r - int (length (take k out)) else dr_n r) \<and>
           (length out < k \<longrightarrow> dr_state r' = stateEOF)"
proof -
  let ?k = "effective_len r k"
  have pos: "\<not> (dr_limited r \<and> dr_n r \<le> 0)" using lim by auto
  have tk: "take ?k out = take k out" and dr: "drop ?k out = drop k out"
    and lt: "length out < k \<longrightarrow> length out < ?k"
    using lim by (auto simp: effective_len_def)
  from read_loop_chunk [OF src dl dec, of "[]" ?k]
  obtain j st' where j: "j \<le> length bs"
    and rl: "read_loop ?k (dr_c r) (dr_state r) [] =
               (after_reads (dr_c r) j, st', take ?k out, None)"
    and d': "decode st' (drop j bs) = (stateEOF, drop ?k out, [])"
    and fin: "length out < ?k \<longrightarrow> st' = stateEOF \<and> j = length bs"
    by auto
  let ?r' = "r\<lparr>dr_c := after_reads (dr_c r) j, dr_state := st',
               dr_n := (if dr_limited r then dr_n r - int (length (take ?k out)) else dr_n r)\<rparr>"
  have "Read r k = (take ?k out, (if st' = stateEOF then Some io_EOF else None), ?r')"
    using pos rl by (simp add: Read_def)
  moreover have "text_R (dr_c ?r') = map RByte (drop j bs) @ tail"
    using text_R_after_reads_prefix [OF src j] by simp
  moreover have "deadlines_succeed (dr_c ?r')" using dl by simp
  ultimately show ?thesis
    using d' fin tk dr lt
    by (intro exI [of _ ?r'] exI [of _ "drop j bs"]) simp
qed

lemma read_to_end_decoded:
  assumes "text_R (dr_c r) = map RByte bs @ tail"
    and "deadlines_succeed (dr_c r)"
    and "decode (dr_state r) bs = (stateEOF, out, [])"
    and "dr_limited r \<longrightarrow> int (length out) < dr_n r"
    and "length out < sum_list ks"
  shows "\<exists>r'. read_to_end r ks = (out, Some io_EOF, r') \<and> dr_state r' = stateEOF \<and>
              text_R (dr_c r') = tail"
  using assms
proof (induction ks arbitrary: r bs out)
  case Nil
  then show ?case by simp
next
  case (Cons k ks)
  from Read_chunk [OF Cons.prems(1-4), of k]
  obtain r' bs' where
    rd: "Read r k = (take k out, (if dr_state r' = stateEOF then Some io_EOF else None), r')"
    and src': "text_R (dr_c r') = map RByte bs' @ tail"
    and dl': "deadlines_succeed (dr_c r')"
    and dec': "decode (dr_state r') bs' = (stateEOF, drop k out, [])"
    and lim': "dr_limited r' = dr_limited r"
    and n': "dr_n r' = (if dr_limited r then dr_n r - int (length (take k out)) else dr_n r)"
    and fin: "length out < k \<longrightarrow> dr_state r' = stateEOF"
    by blast
  show ?case
  proof (cases "dr_state r' = stateEOF")
    case True
    from decode_consumed_EOF [OF dec' True] have "bs' = []" "drop k out = []" by simp_all
    with rd True src' show ?thesis by simp
  next
    case False
    with fin have k: "k \<le> length out" by auto
    have lim2: "dr_limited r' \<longrightarrow> int (length (drop k out)) < dr_n r'"
      using Cons.prems(4) lim' n' k by auto
    have sum2: "length (drop k out) < sum_list ks"
      using Cons.prems(5) k by simp
    from Cons.IH [OF src' dl' dec' lim2 sum2]
    obtain r'' where "read_to_end r' ks = (drop k out, Some io_EOF, r'')"
      "dr_state r'' = stateEOF" "text_R (dr_c r'') = tail" by blast
    with rd False show ?thesis by simp
  qed
qed

lemma newDataReader_fresh_conn [simp]:
  "dr_c (newDataReader (fresh_conn m t src)) = fresh_conn m t src"
  "dr_state (newDataReader (fresh_conn m t src)) = stateBeginLine"
  "dr_limited (newDataReader (fresh_conn m t src)) = (0 < m)"
  "0 < m \<Longrightarrow> dr_n (newDataReader (fresh_conn m t src)) = m"
  by (simp_all add: newDataReader_def fresh_conn_def Let_def)

lemma fresh_conn_simps [simp]:
  "text_R (fresh_conn m t src) = src"
  "deadlines_succeed (fresh_conn m t src)"
  "ReadTimeout (server (fresh_conn m t src)) = t"
  "MaxMessageBytes (server (fresh_conn m t src)) = m"
  "trace (fresh_conn m t src) = []"
  by (simp_all add: fresh_conn_def deadlines_succeed_def)

subsection \<open>Terminator detection\<close>

text \<open>
  C1 as stated fails: for the stream \<open>a\<close> CR LF \<open>.\<close> CR LF the bytes before the marker
  CR LF \<open>.\<close> CR LF are the single byte \<open>a\<close>, but the decoder emits \<open>a\<close> CR LF: the
  CR LF in front of the terminating dot ends the last line of the message and is written
  to the output.
\<close>

theorem terminator_marker_counterexample:
  "fst (read_to_end (newDataReader (fresh_conn 0 0 (map RByte ([97] @ [CR, LF, DOT, CR, LF]))))
         [16]) = [97, CR, LF]
   \<and> fst (read_to_end (newDataReader (fresh_conn 0 0 (map RByte ([97] @ [CR, LF, DOT, CR, LF]))))
         [16]) \<noteq> [97]"
  by code_simp

text \<open>
  A stream that ends with the marker may hold a terminator line earlier; the decoder stops
  at the first one and leaves the rest unread.
\<close>

lemma earlier_terminator_wins:
  "read_to_end
     (newDataReader (fresh_conn 0 0 (map RByte ([97, CR, LF, DOT, CR, LF] @ [98, CR, LF, DOT, CR, LF]))))
     [16]
   = ([97, CR, LF], Some io_EOF,
      \<lparr>dr_c = after_reads
                (fresh_conn 0 0 (map RByte ([97, CR, LF, DOT, CR, LF] @ [98, CR, LF, DOT, CR, LF]))) 6,
       dr_state = stateEOF, dr_limited = False, dr_n = 0\<rparr>)"
  by code_simp

text \<open>
  C1, amended.  The decoder is at the beginning of a line, the source delivers \<open>pre\<close>,
  then the terminator line \<open>.\<close> CR LF, then anything; \<open>pre\<close> is empty (the empty
  message) or is \<open>body\<close> CR LF, where the state machine consumes \<open>body\<close> whole and does
  not end in \<open>stateDot\<close> or \<open>stateEOF\<close> (no terminator line earlier).  No
  \<^verbatim>\<open>SetReadDeadline\<close> fails, the size limit, if any, is above the number of bytes to
  emit, and the buffers of the calls hold more than that number together.  Then the calls
  emit exactly the bytes decoded from \<open>body\<close> followed by the CR LF that ends the last
  line (nothing for the empty message); the three bytes of the terminator line are
  consumed and not emitted, what follows them stays unread; and the call that consumes the
  terminator returns the last chunk together with \<open>io.EOF\<close> (a single call with a
  buffer longer than the message returns all of it with \<open>io.EOF\<close>).
\<close>

theorem terminator_detection:
  assumes "dr_state r = stateBeginLine" and "deadlines_succeed (dr_c r)"
    and "text_R (dr_c r) = map RByte (pre @ [DOT, CR, LF]) @ tail"
    and "pre = [] \<and> out = [] \<or>
         (\<exists>body sf out'. pre = body @ [CR, LF] \<and> out = out' @ [CR, LF] \<and>
            decode stateBeginLine body = (sf, out', []) \<and> sf \<noteq> stateDot \<and> sf \<noteq> stateEOF)"
    and "dr_limited r \<longrightarrow> int (length out) < dr_n r"
    and "length out < sum_list ks"
  shows "fst (read_to_end r ks) = out
       \<and> fst (snd (read_to_end r ks)) = Some io_EOF
       \<and> dr_state (snd (snd (read_to_end r ks))) = stateEOF
       \<and> text_R (dr_c (snd (snd (read_to_end r ks)))) = tail
       \<and> (length out < len_b \<longrightarrow>
            fst (Read r len_b) = out \<and> fst (snd (Read r len_b)) = Some io_EOF)"
proof -
  have pre: "decode stateBeginLine pre = (stateBeginLine, out, [])"
    using assms(4)
  proof (elim disjE exE conjE)
    assume "pre = []" "out = []"
    then show ?thesis by simp
  next
    fix body sf out'
    assume p: "pre = body @ [CR, LF]" "out = out' @ [CR, LF]"
      and d: "decode stateBeginLine body = (sf, out', [])"
      and sf: "sf \<noteq> stateDot" "sf \<noteq> stateEOF"
    from decode_append [OF d, of "[CR, LF]"] decode_CRLF [OF sf] p
    show ?thesis by simp
  qed
  from decode_append [OF pre, of "[DOT, CR, LF]"]
  have "decode (dr_state r) (pre @ [DOT, CR, LF]) = (stateEOF, out, [])"
    using assms(1) by simp
  note dec = this
  from Read_chunk [OF assms(3,2) dec assms(5), of len_b]
  have one: "length out < len_b \<longrightarrow>
      fst (Read r len_b) = out \<and> fst (snd (Read r len_b)) = Some io_EOF"
    by auto
  from read_to_end_decoded [OF assms(3,2) dec assms(5,6)] one
  show ?thesis by auto
qed

theorem terminator_detection_witness:
  "fst (read_to_end (newDataReader (fresh_conn 9 5 (map RByte ([97, CR, LF] @ [DOT, CR, LF]) @ [RByte 98])))
         [2, 2]) = [97, CR, LF]
   \<and> fst (snd (read_to_end
         (newDataReader (fresh_conn 9 5 (map RByte ([97, CR, LF] @ [DOT, CR, LF]) @ [RByte 98])))
         [2, 2])) = Some io_EOF
   \<and> text_R (dr_c (snd (snd (read_to_end
         (newDataReader (fresh_conn 9 5 (map RByte ([97, CR, LF] @ [DOT, CR, LF]) @ [RByte 98])))
         [2, 2])))) = [RByte 98]"
proof -
  let ?r = "newDataReader (fresh_conn 9 5 (map RByte ([97, CR, LF] @ [DOT, CR, LF]) @ [RByte 98]))"
  have 1: "dr_state ?r = stateBeginLine" by simp
  have 2: "deadlines_succeed (dr_c ?r)" by simp
  have 3: "text_R (dr_c ?r) = map RByte ([97, CR, LF] @ [DOT, CR, LF]) @ [RByte 98]" by simp
  have "decode stateBeginLine [97] = (stateData, [97], [])" by simp
  then have 4: "[97, CR, LF] = [] \<and> [97, CR, LF :: byte] = [] \<or>
         (\<exists>body sf out'. [97, CR, LF] = body @ [CR, LF] \<and> [97, CR, LF] = out' @ [CR, LF] \<and>
            decode stateBeginLine body = (sf, out', []) \<and> sf \<noteq> stateDot \<and> sf \<noteq> stateEOF)"
    by (intro disjI2 exI [of _ "[97]"] exI [of _ stateData]) simp
  have 5: "dr_limited ?r \<longrightarrow> int (length [97, CR, LF :: byte]) < dr_n ?r" by simp
  have 6: "length [97, CR, LF :: byte] < sum_list [2, 2]" by simp
  from terminator_detection [OF 1 2 3 4 5 6]
  show ?thesis by blast
qed

subsection \<open>Round trip\<close>

text \<open>
  The decoder takes a bare LF for the end of a line (\<^verbatim>\<open>stateData\<close> goes to
  \<^verbatim>\<open>stateBeginLine\<close> on it), the sender's stuffing as modelled here takes only CR LF for
  one.  A byte sequence with a bare LF inside, which RFC 5321 does not count as a line, is
  therefore not restored when a dot follows the LF: \<open>a\<close> LF \<open>.b\<close> comes back as
  \<open>a\<close> LF \<open>b\<close>.
\<close>

lemma bare_LF_not_restored:
  "fst (read_to_end (newDataReader (fresh_conn 0 0 (map RByte (dot_stuff [[97, LF, DOT, 98]]))))
         [16]) = [97, LF, 98, CR, LF]
   \<and> message_bytes [[97, LF, DOT, 98]] = [97, LF, DOT, 98, CR, LF]"
  by code_simp

text \<open>
  C2: a message body is a list of lines, a line being the bytes before its CR LF (so no
  line holds the byte LF; the line \<open>.\<close> is allowed, stuffing turns it into \<open>..\<close>).  The
  body is dot-stuffed and the terminator line appended; a decoder at the beginning of a
  line reads that from its source, no \<^verbatim>\<open>SetReadDeadline\<close> fails, the size limit, if any,
  is above the length of the message, and the buffers of the calls hold more than the
  message together.  Then the chunks returned by the calls, up to the one that returns
  \<open>io.EOF\<close>, are exactly the original lines, each with its CR LF.
\<close>

theorem dot_stuff_round_trip:
  assumes "\<forall>l \<in> set ls. LF \<notin> set l"
    and "dr_state r = stateBeginLine" and "deadlines_succeed (dr_c r)"
    and "text_R (dr_c r) = map RByte (dot_stuff ls) @ tail"
    and "dr_limited r \<longrightarrow> int (length (message_bytes ls)) < dr_n r"
    and "length (message_bytes ls) < sum_list ks"
  shows "fst (read_to_end r ks) = message_bytes ls
       \<and> fst (snd (read_to_end r ks)) = Some io_EOF
       \<and> text_R (dr_c (snd (snd (read_to_end r ks)))) = tail"
proof -
  from decode_dot_stuff [OF assms(1)] assms(2)
  have "decode (dr_state r) (dot_stuff ls) = (stateEOF, message_bytes ls, [])" by simp
  from read_to_end_decoded [OF assms(4,3) this assms(5,6)]
  show ?thesis by auto
qed

theorem dot_stuff_round_trip_witness:
  "dot_stuff [[DOT, 97], [], [DOT]] = [DOT, DOT, 97, CR, LF, CR, LF, DOT, DOT, CR, LF, DOT, CR, LF]
   \<and> fst (read_to_end
        (newDataReader (fresh_conn 0 5 (map RByte (dot_stuff [[DOT, 97], [], [DOT]]))))
        [3, 0, 4, 3])
     = [DOT, 97, CR, LF, CR, LF, DOT, CR, LF]
   \<and> fst (snd (read_to_end
        (newDataReader (fresh_conn 0 5 (map RByte (dot_stuff [[DOT, 97], [], [DOT]]))))
        [3, 0, 4, 3])) = Some io_EOF"
proof -
  let ?ls = "[[DOT, 97], [], [DOT :: byte]]"
  let ?r = "newDataReader (fresh_conn 0 5 (map RByte (dot_stuff ?ls)))"
  have 1: "\<forall>l \<in> set ?ls. LF \<notin> set l" by simp
  have 2: "dr_state ?r = stateBeginLine" by simp
  have 3: "deadlines_succeed (dr_c ?r)" by simp
  have 4: "text_R (dr_c ?r) = map RByte (dot_stuff ?ls) @ []" by simp
  have 5: "dr_limited ?r \<longrightarrow> int (length (message_bytes ?ls)) < dr_n ?r" by simp
  have 6: "length (message_bytes ?ls) < sum_list [3, 0, 4, 3 :: nat]"
    by (simp add: message_bytes_def)
  have 7: "dot_stuff ?ls = [DOT, DOT, 97, CR, LF, CR, LF, DOT, DOT, CR, LF, DOT, CR, LF]"
    by (simp add: dot_stuff_def stuff_line_def)
  have 8: "message_bytes ?ls = [DOT, 97, CR, LF, CR, LF, DOT, CR, LF]"
    by (simp add: message_bytes_def)
  from dot_stuff_round_trip [OF 1 2 3 4 5 6] 7 8
  show ?thesis by simp
qed

section \<open>Lines that begin with a dot\<close>

lemma after_read_after_reads: "after_read (after_reads c j) = after_reads c (Suc j)"
  using after_reads_add [of c j "Suc 0"] by simp

lemma Read_run_then_byte:
  assumes src: "text_R (dr_c r) = map RByte (pre @ [b]) @ tail"
    and dl: "deadlines_succeed (dr_c r)"
    and dec: "decode (dr_state r) pre = (s, out, [])" and s: "s \<noteq> stateEOF"
    and tr: "transition s b = (s', True)"
    and lim: "dr_limited r \<longrightarrow> int (length out) < dr_n r"
  shows "\<exists>r'. Read r (Suc (length out)) = (out @ [b], None, r') \<and> dr_state r' = s' \<and>
              text_R (dr_c r') = tail"
proof -
  let ?k = "Suc (length out)" and ?c = "dr_c r"
  have eff: "effective_len r ?k = ?k" using lim by (auto simp: effective_len_def)
  have pos: "\<not> (dr_limited r \<and> dr_n r \<le> 0)" using lim by auto
  have s': "s' \<noteq> stateEOF" using transition_EOF_suppresses [OF s, of b True] tr by auto
  have src1: "text_R ?c = map RByte pre @ (RByte b # tail)" using src by simp
  have "read_loop ?k ?c (dr_state r) [] = read_loop ?k (after_reads ?c (length pre)) s ([] @ out)"
    using dec by (intro read_loop_run [OF src1 dl]) auto
  also have "\<dots> = read_loop ?k (after_read (after_reads ?c (length pre))) s' (out @ [b])"
    using read_loop_byte [of out ?k s "after_reads ?c (length pre)" b tail] s dl src1 tr
    by simp
  also have "\<dots> = (after_reads ?c (Suc (length pre)), s', out @ [b], None)"
    by (simp add: read_loop_done after_read_after_reads)
  finally have rl: "read_loop ?k ?c (dr_state r) [] =
      (after_reads ?c (Suc (length pre)), s', out @ [b], None)" .
  have "text_R (after_reads ?c (Suc (length pre))) = tail"
    using text_R_after_reads_prefix [OF src, of "Suc (length pre)"] by simp
  then show ?thesis
    using pos s' rl by (simp add: Read_def eff)
qed

lemma Read_dotted_line:
  assumes st: "dr_state r = stateBeginLine" and dl: "deadlines_succeed (dr_c r)"
    and src: "text_R (dr_c r) = map RByte ([DOT, f] @ fs @ [CR, LF]) @ tail"
    and f: "f \<noteq> CR" "f \<noteq> LF" and fs: "LF \<notin> set fs"
    and lim: "dr_limited r \<longrightarrow> int (length fs) + 3 \<le> dr_n r"
  shows "\<exists>r'. Read r (length fs + 3) = (f # fs @ [CR, LF], None, r') \<and>
              dr_state r' = stateBeginLine \<and> text_R (dr_c r') = tail"
proof -
  let ?pre = "[DOT, f] @ fs @ [CR]" and ?out = "f # fs @ [CR]"
  have "LF \<notin> set (fs @ [CR])" using fs by simp
  from decode_data_run [OF this, of stateData]
  obtain sf where sf: "sf = stateData \<or> sf = stateCR"
    and d: "decode stateData (fs @ [CR]) = (sf, fs @ [CR], [])" by auto
  have dec: "decode (dr_state r) ?pre = (sf, ?out, [])"
    using st f d by simp
  have tr: "transition sf LF = (stateBeginLine, True)" using sf by auto
  have src1: "text_R (dr_c r) = map RByte (?pre @ [LF]) @ tail" using src by simp
  have lim1: "dr_limited r \<longrightarrow> int (length ?out) < dr_n r" using lim by auto
  have k: "Suc (length ?out) = length fs + 3" by simp
  have "sf \<noteq> stateEOF" using sf by auto
  from Read_run_then_byte [OF src1 dl dec this tr lim1]
  show ?thesis unfolding k by simp
qed

text \<open>
  C5: a decoder at the beginning of a line whose source delivers the line \<open>..foo\<close> CR LF
  (\<open>foo\<close> any bytes but LF), read with a buffer that the decoded line fills exactly,
  emits \<open>.foo\<close> CR LF without error: one leading dot is removed, the second is emitted.
  The line is consumed whole, what follows it stays in the source, and the decoder is at
  the beginning of a line again.
\<close>

theorem escaped_dot_line:
  assumes "dr_state r = stateBeginLine" and "deadlines_succeed (dr_c r)"
    and "text_R (dr_c r) = map RByte ([DOT, DOT] @ foo @ [CR, LF]) @ tail"
    and "LF \<notin> set foo"
    and "dr_limited r \<longrightarrow> int (length foo) + 3 \<le> dr_n r"
  shows "fst (Read r (length foo + 3)) = [DOT] @ foo @ [CR, LF]
       \<and> fst (snd (Read r (length foo + 3))) = None
       \<and> dr_state (snd (snd (Read r (length foo + 3)))) = stateBeginLine
       \<and> text_R (dr_c (snd (snd (Read r (length foo + 3))))) = tail
       \<and> transition stateBeginLine DOT = (stateDot, False)
       \<and> transition stateDot DOT = (stateData, True)"
  using Read_dotted_line [OF assms(1,2,3) _ _ assms(4,5)]
  by auto

theorem escaped_dot_line_witness:
  "fst (Read (newDataReader (fresh_conn 0 5 (map RByte ([DOT, DOT] @ [102, 111, 111] @ [CR, LF]) @ [])))
         (length [102, 111, 111 :: byte] + 3))
   = [DOT] @ [102, 111, 111] @ [CR, LF]"
proof -
  let ?r = "newDataReader (fresh_conn 0 5 (map RByte ([DOT, DOT] @ [102, 111, 111] @ [CR, LF]) @ []))"
  have 1: "dr_state ?r = stateBeginLine" by simp
  have 2: "deadlines_succeed (dr_c ?r)" by simp
  have 3: "text_R (dr_c ?r) = map RByte ([DOT, DOT] @ [102, 111, 111] @ [CR, LF]) @ []" by simp
  have 4: "LF \<notin> set [102, 111, 111 :: byte]" by simp
  have 5: "dr_limited ?r \<longrightarrow> int (length [102, 111, 111 :: byte]) + 3 \<le> dr_n ?r" by simp
  from escaped_dot_line [OF 1 2 3 4 5] show ?thesis by blast
qed

text \<open>
  C3 as stated fails: the line \<open>.foo\<close> CR LF is not emitted unchanged, its leading dot
  is removed.
\<close>

theorem leading_dot_counterexample:
  "fst (Read (newDataReader (fresh_conn 0 0 (map RByte [DOT, 102, 111, 111, CR, LF, DOT, CR, LF]))) 6)
     = [102, 111, 111, CR, LF]
   \<and> fst (Read (newDataReader (fresh_conn 0 0 (map RByte [DOT, 102, 111, 111, CR, LF, DOT, CR, LF]))) 6)
     \<noteq> [DOT, 102, 111, 111, CR, LF]"
  by code_simp

text \<open>
  C3, amended: a decoder at the beginning of a line whose source delivers a line \<open>.foo\<close>
  CR LF, where \<open>foo\<close> begins with a byte \<open>f\<close> other than CR and LF and holds no LF, read
  with a buffer that the decoded line fills exactly, emits \<open>foo\<close> CR LF: the leading dot
  is removed and never emitted.  In \<open>stateDot\<close> a byte other than CR and LF is emitted
  alone and the state becomes \<open>stateData\<close>.
\<close>

theorem leading_dot_removed:
  assumes "dr_state r = stateBeginLine" and "deadlines_succeed (dr_c r)"
    and "text_R (dr_c r) = map RByte ([DOT] @ (f # fs) @ [CR, LF]) @ tail"
    and "f \<noteq> CR" and "f \<noteq> LF" and "LF \<notin> set fs"
    and "dr_limited r \<longrightarrow> int (length (f # fs)) + 2 \<le> dr_n r"
  shows "fst (Read r (length (f # fs) + 2)) = (f # fs) @ [CR, LF]
       \<and> fst (Read r (length (f # fs) + 2)) \<noteq> [DOT] @ (f # fs) @ [CR, LF]
       \<and> fst (snd (Read r (length (f # fs) + 2))) = None
       \<and> dr_state (snd (snd (Read r (length (f # fs) + 2)))) = stateBeginLine
       \<and> text_R (dr_c (snd (snd (Read r (length (f # fs) + 2))))) = tail
       \<and> transition stateDot f = (stateData, True)"
proof -
  have src: "text_R (dr_c r) = map RByte ([DOT, f] @ fs @ [CR, LF]) @ tail"
    using assms(3) by simp
  have lim: "dr_limited r \<longrightarrow> int (length fs) + 3 \<le> dr_n r" using assms(7) by auto
  have len: "length (f # fs) + 2 = length fs + 3" by simp
  have "length ((f # fs) @ [CR, LF]) \<noteq> length ([DOT] @ (f # fs) @ [CR, LF])" by simp
  then have ne: "(f # fs) @ [CR, LF] \<noteq> [DOT] @ (f # fs) @ [CR, LF]" by metis
  from Read_dotted_line [OF assms(1,2) src assms(4,5,6) lim]
  obtain r' where "Read r (length fs + 3) = (f # fs @ [CR, LF], None, r')"
    "dr_state r' = stateBeginLine" "text_R (dr_c r') = tail" by blast
  with assms(4,5) ne show ?thesis unfolding len by simp
qed

theorem leading_dot_removed_witness:
  "fst (Read (newDataReader (fresh_conn 8 5 (map RByte ([DOT] @ [102, 111, 111] @ [CR, LF]) @ [RByte 97])))
         (length [102, 111, 111 :: byte] + 2))
   = [102, 111, 111] @ [CR, LF]"
proof -
  let ?r = "newDataReader (fresh_conn 8 5 (map RByte ([DOT] @ [102, 111, 111] @ [CR, LF]) @ [RByte 97]))"
  have 1: "dr_state ?r = stateBeginLine" by simp
  have 2: "deadlines_succeed (dr_c ?r)" by simp
  have 3: "text_R (dr_c ?r) = map RByte ([DOT] @ [102, 111, 111] @ [CR, LF]) @ [RByte 97]" by simp
  have 4: "(102 :: byte) \<noteq> CR" "(102 :: byte) \<noteq> LF" "LF \<notin> set [111, 111 :: byte]" by simp_all
  have 5: "dr_limited ?r \<longrightarrow> int (length [102, 111, 111 :: byte]) + 2 \<le> dr_n ?r" by simp
  from leading_dot_removed [OF 1 2 3 4 5] show ?thesis by blast
qed

section \<open>Errors of the byte source\<close>

lemma is_net_timeout_unexpected:
  "is_net_timeout (if e = io_EOF then io_ErrUnexpectedEOF else e) = is_net_timeout e"
  by (cases e) simp_all

lemma Read_source_error:
  assumes src: "text_R (dr_c r) = map RByte bs @ tail"
    and se: "source_error tail = Some e"
    and dl: "deadlines_succeed (dr_c r)"
    and dec: "decode (dr_state r) bs = (sf, out, [])" and sf: "sf \<noteq> stateEOF"
    and room: "length out < effective_len r len_b"
    and pos: "\<not> (dr_limited r \<and> dr_n r \<le> 0)"
  shows "\<exists>r'. Read r len_b =
           (out,
            Some (if e = io_EOF then io_ErrUnexpectedEOF
                  else if is_net_timeout e then SMTPErr ErrDataTimeout else e),
            r') \<and>
          trace (dr_c r') =
            trace (dr_c r) @ concat (replicate (Suc (length bs)) (byte_events (server (dr_c r))))
              @ (if is_net_timeout e then [EvErrorLog e] else [])"
proof -
  let ?k = "effective_len r len_b" and ?c = "dr_c r"
  let ?c1 = "after_reads ?c (length bs)"
  let ?e1 = "if e = io_EOF then io_ErrUnexpectedEOF else e"
  have run: "read_loop ?k ?c (dr_state r) [] = read_loop ?k ?c1 sf ([] @ out)"
    using room by (intro read_loop_run [OF src dl dec]) simp
  have "text_R ?c1 = tail" using text_R_after_reads_prefix [OF src, of "length bs"] by simp
  with se have rb: "fst (ReadByte (snd (arm_deadline ?c1))) = Inl e"
    by (cases tail rule: source_error.cases) (simp_all add: fst_ReadByte)
  have dl1: "deadlines_succeed ?c1" using dl by simp
  have c2: "after_read ?c1 = after_reads ?c (Suc (length bs))"
    by (rule after_read_after_reads)
  have tr2: "trace (after_reads ?c (Suc (length bs))) =
          trace ?c @ concat (replicate (Suc (length bs)) (byte_events (server ?c)))"
    by (rule trace_after_reads)
  have nt: "e = io_EOF \<Longrightarrow> \<not> is_net_timeout e" by auto
  show ?thesis
  proof (cases "is_net_timeout e")
    case True
    then have "read_loop ?k ?c1 sf out =
        (ErrorLog_Printf (after_reads ?c (Suc (length bs))) e, sf, out, Some (SMTPErr ErrDataTimeout))"
      using read_loop_error [OF room sf dl1 rb] nt c2 by (auto simp: Let_def)
    with run True nt pos tr2 show ?thesis
      by (auto simp: Read_def ErrorLog_Printf_def)
  next
    case False
    then have "read_loop ?k ?c1 sf out = (after_reads ?c (Suc (length bs)), sf, out, Some ?e1)"
      using read_loop_error [OF room sf dl1 rb] c2
      by (simp add: Let_def is_net_timeout_unexpected)
    with run False pos tr2 show ?thesis
      by (auto simp: Read_def)
  qed
qed

text \<open>
  C7: the source delivers the bytes \<open>bs\<close>, which the decoder consumes without arriving at
  the terminator state and without filling its buffer, and then fails with \<open>e\<close> (a source
  that has run dry fails with \<open>io.EOF\<close>).  If \<open>e\<close> is \<open>io.EOF\<close>, \<open>Read\<close> returns the
  bytes decoded so far with \<open>io.ErrUnexpectedEOF\<close>, not with \<open>io.EOF\<close>; if \<open>e\<close> is any
  other error that is not a network timeout, \<open>Read\<close> returns it unchanged.
\<close>

theorem source_error_propagation:
  assumes "text_R (dr_c r) = map RByte bs @ tail"
    and "source_error tail = Some e"
    and "deadlines_succeed (dr_c r)"
    and "decode (dr_state r) bs = (sf, out, [])" and "sf \<noteq> stateEOF"
    and "length out < effective_len r len_b"
    and "\<not> (dr_limited r \<and> dr_n r \<le> 0)"
  shows "fst (Read r len_b) = out
       \<and> (e = io_EOF \<longrightarrow>
            fst (snd (Read r len_b)) = Some io_ErrUnexpectedEOF
            \<and> fst (snd (Read r len_b)) \<noteq> Some io_EOF)
       \<and> (e \<noteq> io_EOF \<and> \<not> is_net_timeout e \<longrightarrow> fst (snd (Read r len_b)) = Some e)"
  using Read_source_error [OF assms] by auto

theorem source_error_propagation_witness:
  "fst (snd (Read (newDataReader (fresh_conn 0 5 (map RByte [97, CR, LF] @ []))) 8))
     = Some io_ErrUnexpectedEOF
   \<and> fst (snd (Read (newDataReader
        (fresh_conn 0 5 (map RByte [97, CR, LF] @ [RErr (other_error ''connection reset''), RByte 98]))) 8))
     = Some (other_error ''connection reset'')"
proof -
  let ?r1 = "newDataReader (fresh_conn 0 5 (map RByte [97, CR, LF] @ []))"
  let ?e = "other_error ''connection reset''"
  let ?r2 = "newDataReader (fresh_conn 0 5 (map RByte [97, CR, LF] @ [RErr ?e, RByte 98]))"
  have d: "decode stateBeginLine [97, CR, LF] = (stateBeginLine, [97, CR, LF], [])"
    by (simp add: Let_def)
  have a1: "text_R (dr_c ?r1) = map RByte [97, CR, LF] @ []"
    and a2: "text_R (dr_c ?r2) = map RByte [97, CR, LF] @ [RErr ?e, RByte 98]" by simp_all
  have s1: "source_error [] = Some io_EOF" and s2: "source_error [RErr ?e, RByte 98] = Some ?e"
    by simp_all
  have dl: "deadlines_succeed (dr_c ?r1)" "deadlines_succeed (dr_c ?r2)" by simp_all
  have d1: "decode (dr_state ?r1) [97, CR, LF] = (stateBeginLine, [97, CR, LF], [])"
    and d2: "decode (dr_state ?r2) [97, CR, LF] = (stateBeginLine, [97, CR, LF], [])"
    using d by simp_all
  have sf: "stateBeginLine \<noteq> stateEOF" by simp
  have k1: "length [97, CR, LF :: byte] < effective_len ?r1 8"
    and k2: "length [97, CR, LF :: byte] < effective_len ?r2 8"
    by (simp_all add: effective_len_def)
  have p: "\<not> (dr_limited ?r1 \<and> dr_n ?r1 \<le> 0)" "\<not> (dr_limited ?r2 \<and> dr_n ?r2 \<le> 0)"
    by simp_all
  from source_error_propagation [OF a1 s1 dl(1) d1 sf k1 p(1)]
       source_error_propagation [OF a2 s2 dl(2) d2 sf k2 p(2)]
  show ?thesis by simp
qed

section \<open>Read timeouts\<close>

lemma deadline_before_each_read_step:
  "deadline_before_each_read ([EvSetReadDeadline, EvReadByte] @ es) = deadline_before_each_read es"
  by simp

lemma read_loop_deadlines:
  "read_loop k c st out = (c', st', out', err) \<Longrightarrow> ReadTimeout (server c) \<noteq> 0 \<Longrightarrow>
   \<exists>new. trace c' = trace c @ new \<and> deadline_before_each_read new"
proof (induction k c st out rule: read_loop.induct)
  case (1 k c st out)
  show ?case
  proof (cases "length out < k \<and> st \<noteq> stateEOF")
    case False
    with "1.prems" have "c' = c" by (simp add: read_loop_done)
    then show ?thesis by (intro exI [of _ "[]"]) simp
  next
    case True
    obtain r1 c1 where a: "arm_deadline c = (r1, c1)" by (cases "arm_deadline c")
    obtain r2 c2 where b: "ReadByte c1 = (r2, c2)" by (cases "ReadByte c1")
    have t1: "trace c1 = trace c @ [EvSetReadDeadline]"
      using trace_arm_deadline [of c] a "1.prems"(2) by simp
    have t2: "trace c2 = trace c @ [EvSetReadDeadline, EvReadByte]"
      using trace_ReadByte [of c1] b t1 by simp
    have srv: "server c2 = server c"
      using server_ReadByte [of c1] server_arm_deadline [of c] a b by simp
    show ?thesis
    proof (cases r1)
      case (Some e)
      with "1.prems"(1) True a have "c' = c1"
        by (subst (asm) read_loop.simps) auto
      with t1 show ?thesis by (intro exI [of _ "[EvSetReadDeadline]"]) simp
    next
      case None
      show ?thesis
      proof (cases r2)
        case (Inl e)
        with "1.prems"(1) True a b None
        have "c' = c2 \<or> (\<exists>e1. c' = ErrorLog_Printf c2 e1)"
          by (subst (asm) read_loop.simps) (auto simp: Let_def split: if_splits)
        then show ?thesis
        proof
          assume "c' = c2"
          with t2 show ?thesis by (intro exI [of _ "[EvSetReadDeadline, EvReadByte]"]) simp
        next
          assume "\<exists>e1. c' = ErrorLog_Printf c2 e1"
          then obtain e1 where "c' = ErrorLog_Printf c2 e1" ..
          with t2 show ?thesis
            by (intro exI [of _ "[EvSetReadDeadline, EvReadByte, EvErrorLog e1]"])
               (simp add: ErrorLog_Printf_def)
        qed
      next
        case (Inr byte)
        obtain s1 emit where t: "transition st byte = (s1, emit)"
          by (cases "transition st byte")
        let ?out1 = "if emit then out @ [byte] else out"
        have rl: "read_loop k c2 s1 ?out1 = (c', st', out', err)"
          using "1.prems"(1) True a b None Inr t
          by (subst (asm) read_loop.simps) simp
        have rt: "ReadTimeout (server c2) \<noteq> 0" using srv "1.prems"(2) by simp
        from "1.IH" [OF True a [symmetric] None b [symmetric] Inr t [symmetric] rl rt]
        obtain new where new: "trace c' = trace c2 @ new" "deadline_before_each_read new"
          by blast
        with t2 show ?thesis
          by (intro exI [of _ "[EvSetReadDeadline, EvReadByte] @ new"]) simp
      qed
    qed
  qed
qed

lemma Read_deadlines:
  assumes "ReadTimeout (server (dr_c r)) \<noteq> 0"
  shows "deadline_before_each_read
           (drop (length (trace (dr_c r))) (trace (dr_c (snd (snd (Read r len_b))))))"
proof (cases "dr_limited r \<and> dr_n r \<le> 0")
  case True
  then show ?thesis by (simp add: Read_def)
next
  case False
  obtain c' st' out e where
    rl: "read_loop (effective_len r len_b) (dr_c r) (dr_state r) [] = (c', st', out, e)"
    by (cases "read_loop (effective_len r len_b) (dr_c r) (dr_state r) []") auto
  from read_loop_deadlines [OF rl assms]
  obtain new where "trace c' = trace (dr_c r) @ new" "deadline_before_each_read new" by blast
  with False rl show ?thesis by (simp add: Read_def Let_def)
qed

text \<open>
  C6: the source delivers the bytes \<open>bs\<close>, which the decoder consumes without arriving at
  the terminator state and without filling its buffer, and the next single-byte read fails
  with an error \<open>e\<close> that is a \<^verbatim>\<open>net.Error\<close> whose \<^verbatim>\<open>Timeout()\<close> is true.  Then \<open>Read\<close>
  returns the bytes decoded so far with \<open>ErrDataTimeout\<close> (451, 4.4.2), which is not the
  error of the source; the calls made on the collaborators are one \<^verbatim>\<open>ReadByte\<close> for each
  byte and one for the failure, each preceded by a \<^verbatim>\<open>SetReadDeadline\<close> of its own when a
  read timeout is configured, and after them exactly one log call, with the error of the
  source.  And in every \<open>Read\<close> call of a decoder with a read timeout configured,
  whatever the source does, each \<^verbatim>\<open>ReadByte\<close> comes directly after a
  \<^verbatim>\<open>SetReadDeadline\<close> of its own.
\<close>

theorem read_timeout_reported:
  assumes "text_R (dr_c r) = map RByte bs @ RErr e # tail"
    and "is_net_timeout e"
    and "deadlines_succeed (dr_c r)"
    and "decode (dr_state r) bs = (sf, out, [])" and "sf \<noteq> stateEOF"
    and "length out < effective_len r len_b"
    and "\<not> (dr_limited r \<and> dr_n r \<le> 0)"
  shows "fst (Read r len_b) = out
       \<and> fst (snd (Read r len_b)) = Some (SMTPErr ErrDataTimeout)
       \<and> fst (snd (Read r len_b)) \<noteq> Some e
       \<and> Code ErrDataTimeout = 451 \<and> EnhancedCode ErrDataTimeout = (4, 4, 2)
       \<and> trace (dr_c (snd (snd (Read r len_b)))) =
           trace (dr_c r)
           @ concat (replicate (Suc (length bs))
               (if ReadTimeout (server (dr_c r)) \<noteq> 0 then [EvSetReadDeadline, EvReadByte]
                else [EvReadByte]))
           @ [EvErrorLog e]
       \<and> (ReadTimeout (server (dr_c r0)) \<noteq> 0 \<longrightarrow>
            deadline_before_each_read
              (drop (length (trace (dr_c r0))) (trace (dr_c (snd (snd (Read r0 len_b0)))))))"
proof -
  have se: "source_error (RErr e # tail) = Some e" by simp
  have ne: "e \<noteq> io_EOF" "Some (SMTPErr ErrDataTimeout) \<noteq> Some e"
    using assms(2) by auto
  from Read_source_error [OF assms(1) se assms(3-7)] assms(2) ne
  obtain r' where "Read r len_b = (out, Some (SMTPErr ErrDataTimeout), r')"
    "trace (dr_c r') =
       trace (dr_c r) @ concat (replicate (Suc (length bs)) (byte_events (server (dr_c r))))
         @ [EvErrorLog e]"
    by auto
  then show ?thesis
    using ne Read_deadlines [of r0 len_b0]
    by (simp add: byte_events_def ErrDataTimeout_def)
qed

theorem read_timeout_reported_witness:
  "fst (snd (Read (newDataReader
        (fresh_conn 0 5 (map RByte [97, 98] @ RErr (net_Error True ''i/o timeout'') # [RByte 99]))) 8))
     = Some (SMTPErr ErrDataTimeout)
   \<and> trace (dr_c (snd (snd (Read (newDataReader
        (fresh_conn 0 5 (map RByte [97, 98] @ RErr (net_Error True ''i/o timeout'') # [RByte 99]))) 8))))
     = [EvSetReadDeadline, EvReadByte, EvSetReadDeadline, EvReadByte, EvSetReadDeadline, EvReadByte,
        EvErrorLog (net_Error True ''i/o timeout'')]"
proof -
  let ?e = "net_Error True ''i/o timeout''"
  let ?r = "newDataReader (fresh_conn 0 5 (map RByte [97, 98] @ RErr ?e # [RByte 99]))"
  have 1: "text_R (dr_c ?r) = map RByte [97, 98] @ RErr ?e # [RByte 99]" by simp
  have 2: "is_net_timeout ?e" by simp
  have 3: "deadlines_succeed (dr_c ?r)" by simp
  have 4: "decode (dr_state ?r) [97, 98] = (stateData, [97, 98], [])" by (simp add: Let_def)
  have 5: "stateData \<noteq> stateEOF" by simp
  have 6: "length [97, 98 :: byte] < effective_len ?r 8" by (simp add: effective_len_def)
  have 7: "\<not> (dr_limited ?r \<and> dr_n ?r \<le> 0)" by simp
  from read_timeout_reported [OF 1 2 3 4 5 6 7]
  show ?thesis by (simp add: numeral_3_eq_3)
qed

end
